theory Spec2Isabelle
  imports Complex_Main "HOL-Library.Multiset"
begin

section \<open>Data model of the CV analysis engine (src/cv_analysis.py)\<close>

text \<open>
  Python floats are idealised as real numbers and Python ints as \<open>int\<close>.
  A sample is the pair \<open>(voltage, current)\<close> appended by the parser.
\<close>

type_synonym sample = "real \<times> real"

text \<open>
  The dictionary \<open>self.metadata\<close>: each of its keys is either absent or
  bound to a number, so it is a record of options.
\<close>

record cv_metadata =
  init_e :: "real option"
  high_e :: "real option"
  low_e :: "real option"
  scan_rate :: "real option"
  segment :: "int option"
  sample_interval :: "real option"
  sensitivity :: "real option"

text \<open>The instance fields of \<open>CVAnalyzer\<close> (line 18 to 23).\<close>

record analyzer =
  sensitivity_threshold_factor :: int
  outlier_count :: int
  metadata :: cv_metadata
  voltage_current_data :: "sample list"
  is_cv :: bool

definition empty_metadata :: cv_metadata where
  "empty_metadata = \<lparr>init_e = None, high_e = None, low_e = None, scan_rate = None,
     segment = None, sample_interval = None, sensitivity = None\<rparr>"

text \<open>\<open>CVAnalyzer.__init__\<close>, and the constructor called with its default arguments.\<close>

definition init_analyzer :: "int \<Rightarrow> int \<Rightarrow> analyzer" where
  "init_analyzer factor n_out = \<lparr>sensitivity_threshold_factor = factor, outlier_count = n_out,
     metadata = empty_metadata, voltage_current_data = [], is_cv = False\<rparr>"

definition default_analyzer :: analyzer where
  "default_analyzer = init_analyzer 10 1"

text \<open>
  Every \<open>return False\<close> of \<open>read_file\<close> and \<open>analyze\<close> (named after the message
  printed before it) and every exception the modelled code can raise.
\<close>

datatype error =
  FileReadError
  | NotCyclicVoltammetry
  | NoVoltageCurrentData
  | NotRecognisedAsCV
  | NoDataAvailable
  | CannotSplitCycles
  | AllCyclesIgnored
  | ZeroDivisionError
  | StatisticsError

section \<open>Cycle segmentation: \<open>_split_into_cycles\<close>\<close>

text \<open>
  The loop of line 257 to 266: the label of each sample after the first, from the
  previous voltage and the last label appended.
\<close>

fun directions_from :: "real \<Rightarrow> int \<Rightarrow> sample list \<Rightarrow> int list" where
  "directions_from prev_v last_d [] = []"
| "directions_from prev_v last_d ((curr_v, c) # rest) =
     (let d = (if curr_v > prev_v then 1 else if curr_v < prev_v then - 1 else last_d)
      in d # directions_from curr_v d rest)"

text \<open>\<open>direction_changes\<close> starts as the list \<open>[0]\<close> (line 255).\<close>

definition direction_changes :: "sample list \<Rightarrow> int list" where
  "direction_changes data =
     (case data of [] \<Rightarrow> [0] | (v0, c0) # rest \<Rightarrow> 0 # directions_from v0 0 rest)"

text \<open>Line 269 to 272: index 0, then every index whose label differs from the one before, both non-zero.\<close>

definition direction_change_indices :: "int list \<Rightarrow> nat list" where
  "direction_change_indices ds =
     0 # filter (\<lambda>i. ds ! i \<noteq> ds ! (i - 1) \<and> ds ! i \<noteq> 0 \<and> ds ! (i - 1) \<noteq> 0) [1..<length ds]"

text \<open>Line 275 to 278: an index is appended while fewer than \<open>segment\<close> boundaries are held.\<close>

fun add_boundaries :: "int \<Rightarrow> nat list \<Rightarrow> nat list \<Rightarrow> nat list" where
  "add_boundaries seg bs [] = bs"
| "add_boundaries seg bs (idx # rest) =
     add_boundaries seg (if int (length bs) < seg then bs @ [idx] else bs) rest"

definition cycle_boundaries :: "int \<Rightarrow> sample list \<Rightarrow> nat list" where
  "cycle_boundaries seg data =
     add_boundaries seg [0] (tl (direction_change_indices (direction_changes data))) @ [length data]"

text \<open>The slice \<open>xs[a:b]\<close> for indices that are not negative.\<close>

definition slice :: "'a list \<Rightarrow> nat \<Rightarrow> nat \<Rightarrow> 'a list" where
  "slice xs a b = take (b - a) (drop a xs)"

text \<open>Line 282 to 288: the slices between consecutive boundaries that hold two samples or more.\<close>

fun make_cycles :: "sample list \<Rightarrow> nat list \<Rightarrow> sample list list" where
  "make_cycles data (start_idx # end_idx # rest) =
     (let cycle_data = slice data start_idx end_idx
      in (if length cycle_data \<ge> 2 then [cycle_data] else []) @ make_cycles data (end_idx # rest))"
| "make_cycles data bs = []"

text \<open>Line 293 to 300: \<open>cycles[i] + cycles[i + 1]\<close> for \<open>i = 0, 2, ...\<close> below \<open>len(cycles) - 1\<close>.\<close>

fun pair_cycles :: "sample list list \<Rightarrow> sample list list" where
  "pair_cycles (forward # reverse # rest) =
     (let combined = forward @ reverse
      in (if length combined > 1 then [combined] else []) @ pair_cycles rest)"
| "pair_cycles cs = []"

definition raw_cycles :: "analyzer \<Rightarrow> sample list list" where
  "raw_cycles self =
     (let seg = (case segment (metadata self) of None \<Rightarrow> 10 | Some s \<Rightarrow> s)
      in make_cycles (voltage_current_data self) (cycle_boundaries seg (voltage_current_data self)))"

definition split_into_cycles :: "analyzer \<Rightarrow> sample list list" where
  "split_into_cycles self =
     (if length (voltage_current_data self) < 2 then []
      else
        let seg = (case segment (metadata self) of None \<Rightarrow> 10 | Some s \<Rightarrow> s);
            expected_cycles = seg div 2;
            cycles = raw_cycles self
        in if int (length cycles) > expected_cycles
           then (let paired_cycles = pair_cycles cycles
                 in if paired_cycles \<noteq> [] then paired_cycles else cycles)
           else cycles)"

section \<open>Per-cycle capacitance: \<open>_calculate_cycle_capacitance\<close>\<close>

text \<open>
  The result dictionary. \<open>outlier_reason\<close> is \<open>None\<close> or the one string literal of
  line 334 (the Chinese for "current overflow"); \<open>warning\<close> is \<open>None\<close> or the
  formatted message of line 335, which depends on the factor only.
\<close>

datatype reason_text = CurrentOverflow

datatype warning_text = OverflowIgnored int

record cycle_result =
  cycle_num :: int
  area :: real
  capacitance :: real
  is_outlier :: bool
  outlier_reason :: "reason_text option"
  warning :: "warning_text option"

text \<open>
  Line 379 to 385: the scan for the maximum voltage, carrying \<open>(max_idx, max_voltage)\<close>;
  the index moves only on a strictly larger voltage.
\<close>

fun max_scan :: "nat \<Rightarrow> nat \<times> real \<Rightarrow> sample list \<Rightarrow> nat \<times> real" where
  "max_scan i (max_idx, max_voltage) [] = (max_idx, max_voltage)"
| "max_scan i (max_idx, max_voltage) ((v, c) # rest) =
     max_scan (Suc i) (if v > max_voltage then (i, v) else (max_idx, max_voltage)) rest"

definition split_forward_reverse :: "sample list \<Rightarrow> sample list \<times> sample list" where
  "split_forward_reverse cycle_data =
     (if length cycle_data < 2 then ([], [])
      else
        let max_idx = fst (max_scan 0 (0, fst (hd cycle_data)) cycle_data)
        in (take (max_idx + 1) cycle_data, drop max_idx cycle_data))"

text \<open>
  Python's \<open>round(v, 6)\<close> on the real line: the nearest multiple of \<open>10\<^sup>-\<^sup>6\<close>, a tie
  going to the even one.
\<close>

definition round6 :: "real \<Rightarrow> real" where
  "round6 v =
     (let y = v * 1000000; f = \<lfloor>y\<rfloor>; d = y - of_int f
      in of_int (if d < 1 / 2 then f else if d > 1 / 2 then f + 1
                 else if even f then f else f + 1) / 1000000)"

text \<open>Line 410: the dictionary comprehension; a later sample overwrites an earlier one with the same key.\<close>

definition reverse_dict :: "sample list \<Rightarrow> (real \<rightharpoonup> real)" where
  "reverse_dict reverse_scan = fold (\<lambda>(v, i) m. m(round6 v \<mapsto> i)) reverse_scan Map.empty"

text \<open>Line 413 to 429: the loop over consecutive forward pairs, carrying \<open>area\<close>.\<close>

fun area_loop :: "(real \<rightharpoonup> real) \<Rightarrow> sample list \<Rightarrow> real \<Rightarrow> real" where
  "area_loop d ((v1, i1) # (v2, i2) # rest) acc =
     area_loop d ((v2, i2) # rest)
       (case d (round6 v1) of
          None \<Rightarrow> acc
        | Some ir1 \<Rightarrow>
            (case d (round6 v2) of
               None \<Rightarrow> acc
             | Some ir2 \<Rightarrow> acc + ((i1 - ir1) + (i2 - ir2)) / 2 * \<bar>v2 - v1\<bar>))"
| "area_loop d ps acc = acc"

definition calculate_area :: "sample list \<Rightarrow> sample list \<Rightarrow> real" where
  "calculate_area forward_scan reverse_scan =
     \<bar>area_loop (reverse_dict reverse_scan) forward_scan 0\<bar>"

text \<open>\<open>max\<close> and \<open>min\<close> of a list that is not empty.\<close>

definition list_max :: "real list \<Rightarrow> real" where
  "list_max xs = fold max (tl xs) (hd xs)"

definition list_min :: "real list \<Rightarrow> real" where
  "list_min xs = fold min (tl xs) (hd xs)"

definition overflow_threshold :: "analyzer \<Rightarrow> real" where
  "overflow_threshold self =
     (case sensitivity (metadata self) of None \<Rightarrow> 1 / 100000 | Some s \<Rightarrow> s)
       * of_int (sensitivity_threshold_factor self)"

definition has_overflow :: "analyzer \<Rightarrow> sample list \<Rightarrow> bool" where
  "has_overflow self cycle_data =
     list_ex (\<lambda>c. c > overflow_threshold self) (map (\<lambda>(v, i). \<bar>i\<bar>) cycle_data)"

text \<open>
  The result is \<open>Inr None\<close> where the source returns \<open>None\<close>, and
  \<open>Inl ZeroDivisionError\<close> where the division of line 357 has a zero divisor.
\<close>

definition calculate_cycle_capacitance ::
  "analyzer \<Rightarrow> int \<Rightarrow> sample list \<Rightarrow> error + cycle_result option" where
  "calculate_cycle_capacitance self num cycle_data =
     (if length cycle_data < 2 then Inr None
      else if has_overflow self cycle_data then
        Inr (Some \<lparr>cycle_num = num, area = 0, capacitance = 0, is_outlier = True,
                   outlier_reason = Some CurrentOverflow,
                   warning = Some (OverflowIgnored (sensitivity_threshold_factor self))\<rparr>)
      else
        let (forward_scan, reverse_scan) = split_forward_reverse cycle_data
        in if forward_scan = [] \<or> reverse_scan = [] then Inr None
           else
             let a = calculate_area forward_scan reverse_scan;
                 rate = (case scan_rate (metadata self) of None \<Rightarrow> 1 / 100 | Some r \<Rightarrow> r)
             in if rate = 0 then Inr None
                else
                  let voltages = map fst forward_scan;
                      voltage_range =
                        (if voltages \<noteq> [] then list_max voltages - list_min voltages else 1)
                  in if 2 * rate * voltage_range = 0 then Inl ZeroDivisionError
                     else Inr (Some \<lparr>cycle_num = num, area = a,
                                      capacitance = a / (2 * rate * voltage_range),
                                      is_outlier = False, outlier_reason = None,
                                      warning = None\<rparr>))"

section \<open>Aggregation: \<open>_calculate_robust_average\<close>, \<open>_get_valid_capacitances\<close>, \<open>analyze\<close>\<close>

text \<open>
  \<open>statistics.mean\<close> and \<open>statistics.stdev\<close> of the Python library: the arithmetic mean
  (an error on no data) and the sample standard deviation (an error below two points).
\<close>

definition statistics_mean :: "real list \<Rightarrow> error + real" where
  "statistics_mean xs =
     (if xs = [] then Inl StatisticsError else Inr (sum_list xs / of_nat (length xs)))"

definition statistics_stdev :: "real list \<Rightarrow> error + real" where
  "statistics_stdev xs =
     (if length xs < 2 then Inl StatisticsError
      else
        let m = sum_list xs / of_nat (length xs)
        in Inr (sqrt (sum_list (map (\<lambda>x. (x - m)\<^sup>2) xs) / of_nat (length xs - 1))))"

text \<open>The slice \<open>xs[k:]\<close>; a negative \<open>k\<close> counts from the end.\<close>

definition slice_from :: "'a list \<Rightarrow> int \<Rightarrow> 'a list" where
  "slice_from xs k = (if 0 \<le> k then drop (nat k) xs else drop (nat (int (length xs) + k)) xs)"

text \<open>
  \<open>list.sort(reverse=True, key=...)\<close> keeps the elements of equal key in their
  original order; so does an insertion sort on the negated key.
\<close>

definition sort_descending :: "(real \<times> real) list \<Rightarrow> (real \<times> real) list" where
  "sort_descending zs = sort_key (\<lambda>x. - fst x) zs"

definition calculate_robust_average :: "analyzer \<Rightarrow> real list \<Rightarrow> error + real" where
  "calculate_robust_average self vals =
     (if int (length vals) \<le> outlier_count self then statistics_mean vals
      else
        case statistics_mean vals of
          Inl e \<Rightarrow> Inl e
        | Inr mean \<Rightarrow>
            (case (if length vals > 1 then statistics_stdev vals else Inr 0) of
               Inl e \<Rightarrow> Inl e
             | Inr stdev \<Rightarrow>
                 if stdev = 0 then Inr mean
                 else
                   let z_scores = map (\<lambda>v. (\<bar>v - mean\<bar> / stdev, v)) vals;
                       remaining = map snd (slice_from (sort_descending z_scores) (outlier_count self))
                   in if remaining \<noteq> [] then statistics_mean remaining else Inr mean))"

definition get_valid_capacitances :: "cycle_result list \<Rightarrow> real list" where
  "get_valid_capacitances cycle_results =
     map capacitance (filter (\<lambda>r. \<not> is_outlier r \<and> capacitance r > 0) cycle_results)"

text \<open>
  Line 175 to 179: cycles are numbered from 1, a \<open>None\<close> result is left out, an exception
  ends the loop.
\<close>

fun collect_results :: "analyzer \<Rightarrow> int \<Rightarrow> sample list list \<Rightarrow> error + cycle_result list" where
  "collect_results self num [] = Inr []"
| "collect_results self num (cycle_data # rest) =
     (case calculate_cycle_capacitance self num cycle_data of
        Inl e \<Rightarrow> Inl e
      | Inr r \<Rightarrow>
          (case collect_results self (num + 1) rest of
             Inl e \<Rightarrow> Inl e
           | Inr rs \<Rightarrow> Inr ((case r of None \<Rightarrow> [] | Some x \<Rightarrow> [x]) @ rs)))"

text \<open>
  What a successful \<open>analyze\<close> prints: the per-cycle results, the list \<open>capacitances\<close>
  it aggregates, the average, and (for more than one value) minimum, maximum, standard
  deviation and variation coefficient in percent.
\<close>

record report =
  rep_results :: "cycle_result list"
  rep_capacitances :: "real list"
  rep_average :: real
  rep_dispersion :: "(real \<times> real \<times> real \<times> real) option"

text \<open>Line 172 to 179: \<open>capacitances\<close> receives the capacitance of every result that is not \<open>None\<close>.\<close>

definition analyze_capacitances :: "cycle_result list \<Rightarrow> real list" where
  "analyze_capacitances cycle_results = map capacitance cycle_results"

definition analyze :: "analyzer \<Rightarrow> error + report" where
  "analyze self =
     (if \<not> is_cv self then Inl NotRecognisedAsCV
      else if voltage_current_data self = [] then Inl NoDataAvailable
      else
        let cycles = split_into_cycles self
        in if cycles = [] then Inl CannotSplitCycles
           else
             case collect_results self 1 cycles of
               Inl e \<Rightarrow> Inl e
             | Inr cycle_results \<Rightarrow>
                 let capacitances = analyze_capacitances cycle_results
                 in if capacitances = [] then Inl AllCyclesIgnored
                    else
                      case calculate_robust_average self capacitances of
                        Inl e \<Rightarrow> Inl e
                      | Inr avg \<Rightarrow>
                          if length capacitances > 1 then
                            (case statistics_stdev capacitances of
                               Inl e \<Rightarrow> Inl e
                             | Inr std_dev \<Rightarrow>
                                 if avg = 0 then Inl ZeroDivisionError
                                 else Inr \<lparr>rep_results = cycle_results,
                                           rep_capacitances = capacitances, rep_average = avg,
                                           rep_dispersion =
                                             Some (list_min capacitances, list_max capacitances,
                                                   std_dev, std_dev / avg * 100)\<rparr>)
                          else Inr \<lparr>rep_results = cycle_results, rep_capacitances = capacitances,
                                    rep_average = avg, rep_dispersion = None\<rparr>)"

section \<open>Parsing: \<open>_parse_voltage_current_data\<close>, \<open>read_file\<close>\<close>


text \<open>\<open>sub in s\<close> on strings.\<close>

fun is_prefix :: "string \<Rightarrow> string \<Rightarrow> bool" where
  "is_prefix [] s = True"
| "is_prefix (a # as) [] = False"
| "is_prefix (a # as) (b # bs) = (a = b \<and> is_prefix as bs)"

fun contains :: "string \<Rightarrow> string \<Rightarrow> bool" where
  "contains sub [] = (sub = [])"
| "contains sub (c # cs) = (is_prefix sub (c # cs) \<or> contains sub cs)"



definition data_header :: string where
  "data_header = ''Potential/V, Current/A''"


text \<open>Line 117 to 120: the lines after the first one that contains the header.\<close>

fun lines_after_header :: "string list \<Rightarrow> string list option" where
  "lines_after_header [] = None"
| "lines_after_header (l # ls) = (if contains data_header l then Some ls else lines_after_header ls)"




section \<open>The loop area in the words of the specification\<close>

text \<open>
  The lookup keyed by the reverse-scan voltage rounded to 6 decimal places, mapping to
  its current; of two reverse samples with the same rounded voltage the later one counts.
\<close>

definition spec_lookup :: "sample list \<Rightarrow> (real \<rightharpoonup> real)" where
  "spec_lookup reverse_scan = map_of (rev (map (\<lambda>(v, i). (round6 v, i)) reverse_scan))"

text \<open>
  What one consecutive forward pair contributes: the trapezoid when both rounded voltages
  are keys of the lookup, nothing otherwise.
\<close>

definition spec_pair_area :: "(real \<rightharpoonup> real) \<Rightarrow> sample \<times> sample \<Rightarrow> real" where
  "spec_pair_area lookup =
     (\<lambda>((v1, i1), (v2, i2)).
        if round6 v1 \<in> dom lookup \<and> round6 v2 \<in> dom lookup
        then ((i1 - the (lookup (round6 v1))) + (i2 - the (lookup (round6 v2)))) / 2 * \<bar>v2 - v1\<bar>
        else 0)"

text \<open>The absolute value of the sum over the consecutive forward pairs.\<close>

definition spec_area :: "sample list \<Rightarrow> sample list \<Rightarrow> real" where
  "spec_area forward_scan reverse_scan =
     \<bar>sum_list (map (spec_pair_area (spec_lookup reverse_scan)) (zip forward_scan (tl forward_scan)))\<bar>"

section \<open>The robust average in the words of the specification\<close>

text \<open>
  The arithmetic mean, the sample standard deviation (taken as 0 below two values, as
  line 448 does) and the z-score \<open>|value - mean| / stdev\<close> of a value within a list.
\<close>

definition arithmetic_mean :: "real list \<Rightarrow> real" where
  "arithmetic_mean xs = sum_list xs / of_nat (length xs)"

definition sample_stdev :: "real list \<Rightarrow> real" where
  "sample_stdev xs =
     (if length xs < 2 then 0
      else sqrt (sum_list (map (\<lambda>x. (x - arithmetic_mean xs)\<^sup>2) xs) / of_nat (length xs - 1)))"

definition z_score :: "real list \<Rightarrow> real \<Rightarrow> real" where
  "z_score xs v = \<bar>v - arithmetic_mean xs\<bar> / sample_stdev xs"

text \<open>The capacitances of the outlier-trimming example of the specification.\<close>

definition spec_example :: "real list" where
  "spec_example = [1, 1, 1, 10]"

section \<open>The acceptance rule of the parser in the words of the specification\<close>





section \<open>Example inputs\<close>

text \<open>
  A triangular wave of two full cycles (up, down, up, down) with \<open>Segment = 4\<close>, a scan
  rate of 1 V/s and a sensitivity of 1 A/V, so that the overflow threshold is 10 A.
\<close>

definition triangle_run :: analyzer where
  "triangle_run = default_analyzer\<lparr>
     metadata := empty_metadata\<lparr>scan_rate := Some 1, segment := Some 4, sensitivity := Some 1\<rparr>,
     voltage_current_data :=
       [(0, 1), (1, 1), (2, 1), (1, - 1), (0, - 1), (1, 2), (2, 2), (1, - 2), (0, - 2)],
     is_cv := True\<rparr>"

text \<open>The same run with a current of 100 A, above the threshold, on its first sample.\<close>

definition overflow_then_valid :: analyzer where
  "overflow_then_valid = triangle_run\<lparr>voltage_current_data :=
       [(0, 100), (1, 1), (2, 1), (1, - 1), (0, - 1), (1, 2), (2, 2), (1, - 2), (0, - 2)]\<rparr>"

text \<open>The second cycle of both runs.\<close>

definition loop_cycle :: "sample list" where
  "loop_cycle = [(1, 2), (2, 2), (1, - 2), (0, - 2)]"

text \<open>
  Two cycles of three samples. In the first the forward voltage 0.1000001 rounds to the
  reverse voltage 0.1; in the second the forward voltage 0.100001 is a multiple of
  \<open>10\<^sup>-\<^sup>6\<close> of its own and rounds to no reverse voltage.
\<close>

definition near_match_cycle :: "sample list" where
  "near_match_cycle = [(1000001 / 10000000, 2), (1 / 5, 2), (1 / 10, - 2)]"

definition no_match_cycle :: "sample list" where
  "no_match_cycle = [(100001 / 1000000, 2), (1 / 5, 2), (1 / 10, - 2)]"

text \<open>Two samples with the voltage falling, the currents within the threshold of \<open>triangle_run\<close>.\<close>

definition descending_cycle :: "sample list" where
  "descending_cycle = [(2, 1), (1, 1)]"

text \<open>
  Two samples of 100 A each: far above the threshold \<open>10\<^sup>-\<^sup>5 * 10\<close> of an analyzer
  without metadata, and the file that holds nothing else.
\<close>

definition overflow_pair :: "sample list" where
  "overflow_pair = [(0, 100), (1, 100)]"

definition single_overflow_run :: analyzer where
  "single_overflow_run = default_analyzer\<lparr>voltage_current_data := overflow_pair, is_cv := True\<rparr>"

section \<open>Segmentation: proofs\<close>

subsection \<open>Facts about segmentation\<close>

lemma length_directions_from: "length (directions_from v d xs) = length xs"
  by (induction xs arbitrary: v d) (auto simp: Let_def)

lemma length_direction_changes: "data \<noteq> [] \<Longrightarrow> length (direction_changes data) = length data"
  by (cases data) (auto simp: direction_changes_def length_directions_from)

lemma direction_changes_0: "direction_changes data ! 0 = 0"
  by (cases data) (auto simp: direction_changes_def)

lemma change_indices_ge2:
  assumes "i \<in> set (tl (direction_change_indices (direction_changes data)))"
  shows "2 \<le> i \<and> i < length (direction_changes data)"
proof -
  let ?ds = "direction_changes data"
  from assms have f: "1 \<le> i" "i < length ?ds" "?ds ! (i - 1) \<noteq> 0"
    by (auto simp: direction_change_indices_def)
  have "i \<noteq> 1" using f(3) direction_changes_0[of data] by auto
  with f show ?thesis by auto
qed

lemma add_boundaries_shape: "\<exists>ys. add_boundaries seg bs xs = bs @ ys \<and> set ys \<subseteq> set xs"
proof (induction xs arbitrary: bs)
  case Nil
  then show ?case by simp
next
  case (Cons x xs)
  show ?case
  proof (cases "int (length bs) < seg")
    case True
    from Cons.IH[of "bs @ [x]"] obtain ys
      where "add_boundaries seg (bs @ [x]) xs = (bs @ [x]) @ ys" "set ys \<subseteq> set xs" by blast
    with True show ?thesis by (intro exI[of _ "x # ys"]) auto
  next
    case False
    from Cons.IH[of bs] obtain ys
      where "add_boundaries seg bs xs = bs @ ys" "set ys \<subseteq> set xs" by blast
    with False show ?thesis by (intro exI[of _ ys]) auto
  qed
qed

lemma cycle_boundaries_shape:
  "\<exists>ys. cycle_boundaries seg data = 0 # ys @ [length data] \<and> (\<forall>y \<in> set ys. 2 \<le> y)"
proof -
  let ?idx = "tl (direction_change_indices (direction_changes data))"
  obtain ys where ys: "add_boundaries seg [0] ?idx = [0] @ ys" "set ys \<subseteq> set ?idx"
    using add_boundaries_shape[of seg "[0]" ?idx] by blast
  have "\<forall>y \<in> set ys. 2 \<le> y" using ys(2) change_indices_ge2[of _ data] by blast
  moreover have "cycle_boundaries seg data = 0 # ys @ [length data]"
    using ys(1) by (simp add: cycle_boundaries_def)
  ultimately show ?thesis by blast
qed

lemma raw_cycles_nonempty:
  assumes "2 \<le> length (voltage_current_data self)"
  shows "raw_cycles self \<noteq> []"
proof -
  let ?data = "voltage_current_data self"
  define seg where "seg = (case segment (metadata self) of None \<Rightarrow> 10 | Some s \<Rightarrow> s)"
  obtain ys where bnd: "cycle_boundaries seg ?data = 0 # ys @ [length ?data]"
    and ge: "\<forall>y \<in> set ys. 2 \<le> y"
    using cycle_boundaries_shape[of seg ?data] by blast
  have "make_cycles ?data (0 # ys @ [length ?data]) \<noteq> []"
  proof (cases ys)
    case Nil
    then show ?thesis using assms by (simp add: slice_def Let_def)
  next
    case (Cons y ys')
    then have "2 \<le> y" using ge by auto
    then have "2 \<le> length (slice ?data 0 y)" using assms by (simp add: slice_def)
    then show ?thesis using Cons by (simp add: Let_def)
  qed
  then show ?thesis by (simp add: raw_cycles_def bnd[unfolded seg_def] Let_def)
qed

lemma make_cycles_lengths: "c \<in> set (make_cycles data bs) \<Longrightarrow> 2 \<le> length c"
  by (induction data bs rule: make_cycles.induct) (auto simp: Let_def split: if_splits)

lemma raw_cycles_lengths: "c \<in> set (raw_cycles self) \<Longrightarrow> 2 \<le> length c"
  unfolding raw_cycles_def Let_def by (rule make_cycles_lengths)

lemma pair_cycles_length:
  "\<forall>c \<in> set cs. 1 \<le> length c \<Longrightarrow> length (pair_cycles cs) = length cs div 2"
  by (induction cs rule: pair_cycles.induct) (auto simp: Let_def)

lemma pair_cycles_nth:
  "\<forall>c \<in> set cs. 1 \<le> length c \<Longrightarrow> k < length cs div 2 \<Longrightarrow>
     pair_cycles cs ! k = cs ! (2 * k) @ cs ! (2 * k + 1)"
proof (induction cs arbitrary: k rule: pair_cycles.induct)
  case (1 f r rest)
  then show ?case by (cases k) (auto simp: Let_def)
qed auto

lemma pair_cycles_concat:
  "\<forall>c \<in> set cs. 1 \<le> length c \<Longrightarrow> concat (pair_cycles cs) = concat (take (2 * (length cs div 2)) cs)"
  by (induction cs rule: pair_cycles.induct) (auto simp: Let_def)

lemma pair_cycles_empty_iff:
  "\<forall>c \<in> set cs. 1 \<le> length c \<Longrightarrow> pair_cycles cs = [] \<longleftrightarrow> length cs < 2"
  using pair_cycles_length[of cs] by (metis length_0_conv div_less div_greater_zero_iff not_less pos2 less_numeral_extra(3))

subsection \<open>The triangular run\<close>

lemma triangle_fields:
  "segment (metadata triangle_run) = Some 4"
  "scan_rate (metadata triangle_run) = Some 1"
  "sensitivity (metadata triangle_run) = Some 1"
  "sensitivity_threshold_factor triangle_run = 10"
  "outlier_count triangle_run = 1"
  "is_cv triangle_run"
  "voltage_current_data triangle_run =
     [(0, 1), (1, 1), (2, 1), (1, - 1), (0, - 1), (1, 2), (2, 2), (1, - 2), (0, - 2)]"
  by (simp_all add: triangle_run_def default_analyzer_def init_analyzer_def empty_metadata_def)

lemma triangle_raw_cycles:
  "raw_cycles triangle_run =
     [[(0, 1), (1, 1), (2, 1)], [(1, - 1), (0, - 1)], [(1, 2), (2, 2)], [(1, - 2), (0, - 2)]]"
proof -
  have dirs: "direction_changes (voltage_current_data triangle_run) = [0, 1, 1, - 1, - 1, 1, 1, - 1, - 1]"
    by (simp add: triangle_fields direction_changes_def)
  have idx: "direction_change_indices [0, 1, 1, - 1, - 1, 1, 1, - 1, - 1] = [0, 3, 5, 7]"
    by (simp add: direction_change_indices_def upt_rec numeral_nat)
  have bnd: "cycle_boundaries 4 (voltage_current_data triangle_run) = [0, 3, 5, 7, 9]"
    unfolding cycle_boundaries_def dirs idx by (simp add: triangle_fields)
  show ?thesis
    unfolding raw_cycles_def triangle_fields(1) using bnd
    by (simp add: triangle_fields slice_def)
qed

lemma triangle_split:
  "split_into_cycles triangle_run =
     [[(0, 1), (1, 1), (2, 1), (1, - 1), (0, - 1)], [(1, 2), (2, 2), (1, - 2), (0, - 2)]]"
  unfolding split_into_cycles_def triangle_raw_cycles by (simp add: triangle_fields)

subsection \<open>Claims about segmentation\<close>

text \<open>
  For every sample sequence whose voltage falls strictly from the first sample to the
  second, the label at index 0 is 0 and the label at index 1 is \<open>-1\<close>; index 1 is
  neither a reversal index nor a cycle boundary, whatever the segment count.
\<close>

lemma falling_start_in_general:
  assumes "data = (v0, c0) # (v1, c1) # rest" and "v1 < v0"
  shows "direction_changes data ! 0 = 0
     \<and> direction_changes data ! 1 = - 1
     \<and> 1 \<notin> set (direction_change_indices (direction_changes data))
     \<and> 1 \<notin> set (cycle_boundaries seg data)"
proof -
  have a: "direction_changes data ! 0 = 0" by (rule direction_changes_0)
  have b: "direction_changes data ! 1 = - 1"
    using assms by (simp add: direction_changes_def Let_def)
  have c: "1 \<notin> set (direction_change_indices (direction_changes data))"
  proof
    assume "1 \<in> set (direction_change_indices (direction_changes data))"
    then have "1 \<in> set (tl (direction_change_indices (direction_changes data)))"
      by (simp add: direction_change_indices_def)
    from change_indices_ge2[OF this] show False by simp
  qed
  obtain ys where bnd: "cycle_boundaries seg data = 0 # ys @ [length data]"
    and ge: "\<forall>y \<in> set ys. 2 \<le> y"
    using cycle_boundaries_shape[of seg data] by blast
  have "2 \<le> length data" using assms(1) by simp
  then have d: "1 \<notin> set (cycle_boundaries seg data)"
    unfolding bnd using ge by auto
  from a b c d show ?thesis by blast
qed

text \<open>
  Claim C3 fails on the code. Line 255 starts the list of labels with 0, although its
  comment calls the direction of the first point positive. For the two falling samples
  of \<open>descending_cycle\<close> the labels are \<open>[0, -1]\<close>, the only reversal index collected is
  the leading 0, and the boundaries are \<open>[0, 2]\<close>: the first label is not \<open>+1\<close> and index
  1 is neither a reversal index nor a cycle boundary.
\<close>

theorem falling_start_has_no_reversal:
  "direction_changes descending_cycle = [0, - 1]
     \<and> direction_change_indices (direction_changes descending_cycle) = [0]
     \<and> cycle_boundaries 10 descending_cycle = [0, 2]
     \<and> direction_changes descending_cycle ! 0 \<noteq> 1
     \<and> 1 \<notin> set (direction_change_indices (direction_changes descending_cycle))
     \<and> 1 \<notin> set (cycle_boundaries 10 descending_cycle)"
proof -
  have d: "direction_changes descending_cycle = [0, - 1]"
    by (simp add: descending_cycle_def direction_changes_def)
  have i: "direction_change_indices [0, - 1] = [0]"
    by (simp add: direction_change_indices_def upt_rec)
  have b: "cycle_boundaries 10 descending_cycle = [0, 2]"
    by (simp add: cycle_boundaries_def d i) (simp add: descending_cycle_def)
  show ?thesis by (simp add: d i b)
qed

text \<open>
  Claim C8. The slices kept by step 4 hold two samples or more. Pairing them gives
  \<open>n div 2\<close> cycles for \<open>n\<close> slices, the \<open>k\<close>-th being slice \<open>2k\<close> followed by slice
  \<open>2k + 1\<close>, so the last slice of an odd count belongs to no pair. When the count of
  slices exceeds \<open>segment // 2\<close> the paired list replaces the unpaired one, unless
  pairing yields no cycle (a single slice), where the unpaired list is kept; otherwise
  the slices are returned as they are. Segmentation returns no cycle exactly when there
  are fewer than two samples.
\<close>

theorem pairing_reconciliation:
  fixes self :: analyzer
  defines "data \<equiv> voltage_current_data self"
    and "expected \<equiv> (case segment (metadata self) of None \<Rightarrow> 10 | Some s \<Rightarrow> s) div 2"
    and "cycles \<equiv> raw_cycles self"
  shows "(\<forall>c \<in> set cycles. 2 \<le> length c)
     \<and> length (pair_cycles cycles) = length cycles div 2
     \<and> (\<forall>k < length cycles div 2. pair_cycles cycles ! k = cycles ! (2 * k) @ cycles ! (2 * k + 1))
     \<and> (2 \<le> length data \<and> int (length cycles) > expected \<and> 2 \<le> length cycles
          \<longrightarrow> split_into_cycles self = pair_cycles cycles)
     \<and> (2 \<le> length data \<and> int (length cycles) > expected \<and> length cycles < 2
          \<longrightarrow> pair_cycles cycles = [] \<and> split_into_cycles self = cycles)
     \<and> (2 \<le> length data \<and> int (length cycles) \<le> expected \<longrightarrow> split_into_cycles self = cycles)
     \<and> (split_into_cycles self = [] \<longleftrightarrow> length data < 2)"
proof -
  have len: "\<forall>c \<in> set cycles. 2 \<le> length c"
    unfolding cycles_def using raw_cycles_lengths by blast
  then have one: "\<forall>c \<in> set cycles. 1 \<le> length c" by auto
  have p1: "length (pair_cycles cycles) = length cycles div 2"
    using one by (rule pair_cycles_length)
  have p2: "\<forall>k < length cycles div 2. pair_cycles cycles ! k = cycles ! (2 * k) @ cycles ! (2 * k + 1)"
    using one pair_cycles_nth by blast
  have emp: "pair_cycles cycles = [] \<longleftrightarrow> length cycles < 2"
    using one by (rule pair_cycles_empty_iff)
  have s1: "2 \<le> length data \<and> int (length cycles) > expected \<and> 2 \<le> length cycles
          \<longrightarrow> split_into_cycles self = pair_cycles cycles"
    using emp by (auto simp: split_into_cycles_def Let_def data_def expected_def cycles_def)
  have s2: "2 \<le> length data \<and> int (length cycles) > expected \<and> length cycles < 2
          \<longrightarrow> pair_cycles cycles = [] \<and> split_into_cycles self = cycles"
    using emp by (auto simp: split_into_cycles_def Let_def data_def expected_def cycles_def)
  have s3: "2 \<le> length data \<and> int (length cycles) \<le> expected \<longrightarrow> split_into_cycles self = cycles"
    by (auto simp: split_into_cycles_def Let_def data_def expected_def cycles_def)
  have s4: "split_into_cycles self = [] \<longleftrightarrow> length data < 2"
    using raw_cycles_nonempty[of self]
    by (auto simp: split_into_cycles_def Let_def data_def)
  from len p1 p2 s1 s2 s3 s4 show ?thesis by blast
qed

text \<open>The theorem at the triangular run: four half-scans, paired into two cycles.\<close>

theorem pairing_reconciliation_witness:
  "length (raw_cycles triangle_run) = 4
     \<and> split_into_cycles triangle_run = pair_cycles (raw_cycles triangle_run)
     \<and> length (split_into_cycles triangle_run) = 2
     \<and> split_into_cycles triangle_run ! 0 = raw_cycles triangle_run ! 0 @ raw_cycles triangle_run ! 1
     \<and> split_into_cycles triangle_run ! 1 = raw_cycles triangle_run ! 2 @ raw_cycles triangle_run ! 3
     \<and> split_into_cycles triangle_run \<noteq> []"
  using pairing_reconciliation[of triangle_run]
  by (simp add: triangle_raw_cycles triangle_split triangle_fields)

section \<open>Per-cycle capacitance: proofs\<close>

lemma max_scan_bound:
  "fst (max_scan i (mi, mv) xs) = mi
     \<or> (i \<le> fst (max_scan i (mi, mv) xs) \<and> fst (max_scan i (mi, mv) xs) < i + length xs)"
proof (induction xs arbitrary: i mi mv)
  case Nil
  then show ?case by simp
next
  case (Cons x xs)
  obtain v c where x: "x = (v, c)" by (cases x)
  show ?case
  proof (cases "v > mv")
    case True
    with Cons[of "Suc i" i v] x show ?thesis by auto
  next
    case False
    with Cons[of "Suc i" mi mv] x show ?thesis by auto
  qed
qed

lemma max_idx_in_range: "xs \<noteq> [] \<Longrightarrow> fst (max_scan 0 (0, mv) xs) < length xs"
  using max_scan_bound[of 0 0 mv xs] by auto

lemma split_nonempty:
  assumes "2 \<le> length cyc"
  shows "fst (split_forward_reverse cyc) \<noteq> [] \<and> snd (split_forward_reverse cyc) \<noteq> []"
proof -
  from assms have "cyc \<noteq> []" by auto
  then have "fst (max_scan 0 (0, fst (hd cyc)) cyc) < length cyc" by (rule max_idx_in_range)
  with assms show ?thesis by (auto simp: split_forward_reverse_def Let_def)
qed

lemma has_overflow_iff:
  "has_overflow self cyc \<longleftrightarrow> (\<exists>p \<in> set cyc. \<bar>snd p\<bar> > overflow_threshold self)"
  by (auto simp: has_overflow_def list_ex_iff case_prod_unfold)

lemma round6_int: "round6 (of_int n) = of_int n"
proof -
  have "(of_int n :: real) * 1000000 = of_int (n * 1000000)" by simp
  then show ?thesis unfolding round6_def Let_def by (simp only: floor_of_int) simp
qed

lemma round6_small: "round6 0 = 0" "round6 1 = 1" "round6 2 = 2"
  using round6_int[of 0] round6_int[of 1] round6_int[of 2] by simp_all

lemma normal_result:
  assumes "2 \<le> length cyc" and "\<not> has_overflow self cyc"
    and "(case scan_rate (metadata self) of None \<Rightarrow> 1 / 100 | Some r \<Rightarrow> r) = rate"
    and "rate \<noteq> 0"
    and "list_max (map fst (fst (split_forward_reverse cyc)))
           \<noteq> list_min (map fst (fst (split_forward_reverse cyc)))"
  shows "calculate_cycle_capacitance self num cyc =
     Inr (Some \<lparr>cycle_num = num,
                area = calculate_area (fst (split_forward_reverse cyc)) (snd (split_forward_reverse cyc)),
                capacitance =
                  calculate_area (fst (split_forward_reverse cyc)) (snd (split_forward_reverse cyc))
                    / (2 * rate * (list_max (map fst (fst (split_forward_reverse cyc)))
                                     - list_min (map fst (fst (split_forward_reverse cyc))))),
                is_outlier = False, outlier_reason = None, warning = None\<rparr>)"
proof -
  obtain fwd rv where sp: "split_forward_reverse cyc = (fwd, rv)" by (cases "split_forward_reverse cyc")
  from split_nonempty[OF assms(1)] sp have ne: "fwd \<noteq> []" "rv \<noteq> []" by auto
  from assms(5) sp have rng: "list_max (map fst fwd) - list_min (map fst fwd) \<noteq> 0" by simp
  show ?thesis
    using assms(1,2,4) ne rng
    by (simp add: calculate_cycle_capacitance_def sp assms(3) Let_def)
qed

lemma loop_cycle_split:
  "split_forward_reverse loop_cycle = ([(1, 2), (2, 2)], [(2, 2), (1, - 2), (0, - 2)])"
  by (simp add: split_forward_reverse_def loop_cycle_def)

lemma loop_cycle_area: "calculate_area [(1, 2), (2, 2)] [(2, 2), (1, - 2), (0, - 2)] = 2"
  by (simp add: calculate_area_def reverse_dict_def round6_small)

lemma loop_cycle_no_overflow: "\<not> has_overflow triangle_run loop_cycle"
  by (simp add: has_overflow_def overflow_threshold_def triangle_fields loop_cycle_def)

lemma loop_cycle_result:
  "calculate_cycle_capacitance triangle_run 2 loop_cycle =
     Inr (Some \<lparr>cycle_num = 2, area = 2, capacitance = 1, is_outlier = False,
                outlier_reason = None, warning = None\<rparr>)"
proof -
  have l: "2 \<le> length loop_cycle" by (simp add: loop_cycle_def)
  have r: "(case scan_rate (metadata triangle_run) of None \<Rightarrow> 1 / 100 | Some r \<Rightarrow> r) = 1"
    by (simp add: triangle_fields)
  show ?thesis
    using normal_result[OF l loop_cycle_no_overflow r, of 2]
    by (simp add: loop_cycle_split loop_cycle_area list_max_def list_min_def)
qed


subsection \<open>Claims about the per-cycle calculator\<close>

text \<open>
  Claim C7. For every cycle (two samples or more) the overflow test holds exactly when
  some sample's absolute current exceeds \<open>sensitivity * factor\<close>, the sensitivity being
  \<open>10\<^sup>-\<^sup>5\<close> when the metadata has none. If it holds, the calculator returns the outlier
  result (area 0, capacitance 0, the reason "current overflow", a warning) whatever the
  rest of the cycle and the scan rate are; if it does not, no result of the calculator is
  flagged. The constructor's default factor is 10.
\<close>

theorem overflow_check:
  assumes "2 \<le> length cycle_data"
  shows "(has_overflow self cycle_data \<longleftrightarrow>
            (\<exists>(v, i) \<in> set cycle_data.
               \<bar>i\<bar> > (case sensitivity (metadata self) of None \<Rightarrow> 1 / 100000 | Some s \<Rightarrow> s)
                        * of_int (sensitivity_threshold_factor self)))
     \<and> (has_overflow self cycle_data \<longrightarrow>
            calculate_cycle_capacitance self num cycle_data =
              Inr (Some \<lparr>cycle_num = num, area = 0, capacitance = 0, is_outlier = True,
                         outlier_reason = Some CurrentOverflow,
                         warning = Some (OverflowIgnored (sensitivity_threshold_factor self))\<rparr>))
     \<and> (\<not> has_overflow self cycle_data \<longrightarrow>
            (\<forall>r. calculate_cycle_capacitance self num cycle_data = Inr (Some r) \<longrightarrow>
                   \<not> is_outlier r \<and> outlier_reason r = None \<and> warning r = None))
     \<and> sensitivity_threshold_factor default_analyzer = 10
     \<and> sensitivity (metadata default_analyzer) = None"
proof -
  have a: "has_overflow self cycle_data \<longleftrightarrow>
            (\<exists>(v, i) \<in> set cycle_data.
               \<bar>i\<bar> > (case sensitivity (metadata self) of None \<Rightarrow> 1 / 100000 | Some s \<Rightarrow> s)
                        * of_int (sensitivity_threshold_factor self))"
    unfolding has_overflow_def list_ex_iff overflow_threshold_def
    by (force simp: case_prod_unfold)
  have b: "has_overflow self cycle_data \<longrightarrow>
            calculate_cycle_capacitance self num cycle_data =
              Inr (Some \<lparr>cycle_num = num, area = 0, capacitance = 0, is_outlier = True,
                         outlier_reason = Some CurrentOverflow,
                         warning = Some (OverflowIgnored (sensitivity_threshold_factor self))\<rparr>)"
    using assms by (simp add: calculate_cycle_capacitance_def)
  have c: "\<not> has_overflow self cycle_data \<longrightarrow>
            (\<forall>r. calculate_cycle_capacitance self num cycle_data = Inr (Some r) \<longrightarrow>
                   \<not> is_outlier r \<and> outlier_reason r = None \<and> warning r = None)"
    by (auto simp: calculate_cycle_capacitance_def Let_def split: if_splits prod.splits)
  have d: "sensitivity_threshold_factor default_analyzer = 10
     \<and> sensitivity (metadata default_analyzer) = None"
    by (simp add: default_analyzer_def init_analyzer_def empty_metadata_def)
  from a b c d show ?thesis by blast
qed

text \<open>
  The theorem at two samples of 100 A under the default analyzer, and at the second cycle
  of the triangular run, which has no overflow.
\<close>

theorem overflow_check_witness:
  "has_overflow default_analyzer overflow_pair
     \<and> calculate_cycle_capacitance default_analyzer 1 overflow_pair =
         Inr (Some \<lparr>cycle_num = 1, area = 0, capacitance = 0, is_outlier = True,
                    outlier_reason = Some CurrentOverflow, warning = Some (OverflowIgnored 10)\<rparr>)
     \<and> \<not> has_overflow triangle_run loop_cycle
     \<and> calculate_cycle_capacitance triangle_run 2 loop_cycle =
         Inr (Some \<lparr>cycle_num = 2, area = 2, capacitance = 1, is_outlier = False,
                    outlier_reason = None, warning = None\<rparr>)"
proof -
  have l: "2 \<le> length overflow_pair" by (simp add: overflow_pair_def)
  have o: "has_overflow default_analyzer overflow_pair"
    by (simp add: has_overflow_def overflow_threshold_def default_analyzer_def init_analyzer_def
        empty_metadata_def overflow_pair_def)
  from overflow_check[OF l, of default_analyzer 1] o
  have "calculate_cycle_capacitance default_analyzer 1 overflow_pair =
         Inr (Some \<lparr>cycle_num = 1, area = 0, capacitance = 0, is_outlier = True,
                    outlier_reason = Some CurrentOverflow, warning = Some (OverflowIgnored 10)\<rparr>)"
    by simp
  with o loop_cycle_no_overflow loop_cycle_result show ?thesis by simp
qed

text \<open>
  Claim C5. Without a \<open>scan_rate\<close> entry the calculator returns what it returns for a scan
  rate of 0.01 V/s. In particular, a cycle without overflow whose forward voltages are not
  all equal gets the normal non-outlier result, with capacitance
  \<open>area / (2 * 0.01 * voltage_range)\<close>, and the calculator returns \<open>None\<close> only for a
  cycle of fewer than two samples.
\<close>

theorem missing_scan_rate_default:
  assumes "scan_rate (metadata self) = None"
  shows "calculate_cycle_capacitance self num cyc =
           calculate_cycle_capacitance
             (self\<lparr>metadata := (metadata self)\<lparr>scan_rate := Some (1 / 100)\<rparr>\<rparr>) num cyc
     \<and> (2 \<le> length cyc \<and> \<not> has_overflow self cyc
          \<and> list_max (map fst (fst (split_forward_reverse cyc)))
               \<noteq> list_min (map fst (fst (split_forward_reverse cyc)))
        \<longrightarrow> calculate_cycle_capacitance self num cyc =
             Inr (Some \<lparr>cycle_num = num,
                area = calculate_area (fst (split_forward_reverse cyc)) (snd (split_forward_reverse cyc)),
                capacitance =
                  calculate_area (fst (split_forward_reverse cyc)) (snd (split_forward_reverse cyc))
                    / (2 * (1 / 100) * (list_max (map fst (fst (split_forward_reverse cyc)))
                                     - list_min (map fst (fst (split_forward_reverse cyc))))),
                is_outlier = False, outlier_reason = None, warning = None\<rparr>))
     \<and> (calculate_cycle_capacitance self num cyc = Inr None
          \<longrightarrow> length cyc < 2)"
proof -
  have a: "calculate_cycle_capacitance self num cyc =
           calculate_cycle_capacitance
             (self\<lparr>metadata := (metadata self)\<lparr>scan_rate := Some (1 / 100)\<rparr>\<rparr>) num cyc"
    using assms
    by (simp add: calculate_cycle_capacitance_def has_overflow_def overflow_threshold_def Let_def
        split: prod.splits cong: if_cong)
  have r: "(case scan_rate (metadata self) of None \<Rightarrow> 1 / 100 | Some r \<Rightarrow> r) = 1 / 100"
    using assms by simp
  have b: "2 \<le> length cyc \<and> \<not> has_overflow self cyc
          \<and> list_max (map fst (fst (split_forward_reverse cyc)))
               \<noteq> list_min (map fst (fst (split_forward_reverse cyc)))
        \<longrightarrow> calculate_cycle_capacitance self num cyc =
             Inr (Some \<lparr>cycle_num = num,
                area = calculate_area (fst (split_forward_reverse cyc)) (snd (split_forward_reverse cyc)),
                capacitance =
                  calculate_area (fst (split_forward_reverse cyc)) (snd (split_forward_reverse cyc))
                    / (2 * (1 / 100) * (list_max (map fst (fst (split_forward_reverse cyc)))
                                     - list_min (map fst (fst (split_forward_reverse cyc))))),
                is_outlier = False, outlier_reason = None, warning = None\<rparr>)"
    using normal_result[of cyc self "1 / 100" num] r by simp
  have c: "calculate_cycle_capacitance self num cyc = Inr None \<longrightarrow> length cyc < 2"
  proof (rule impI, rule ccontr)
    assume n: "calculate_cycle_capacitance self num cyc = Inr None" and "\<not> length cyc < 2"
    then have l: "2 \<le> length cyc" by simp
    obtain fwd rv where sp: "split_forward_reverse cyc = (fwd, rv)"
      by (cases "split_forward_reverse cyc")
    from split_nonempty[OF l] sp have ne: "fwd \<noteq> []" "rv \<noteq> []" by auto
    from n l ne show False
      by (simp add: calculate_cycle_capacitance_def sp assms Let_def split: if_splits)
  qed
  from a b c show ?thesis by blast
qed

text \<open>The theorem at the second cycle of the triangular run, its scan rate removed.\<close>

theorem missing_scan_rate_default_witness:
  "calculate_cycle_capacitance (triangle_run\<lparr>metadata := (metadata triangle_run)\<lparr>scan_rate := None\<rparr>\<rparr>) 2 loop_cycle =
     Inr (Some \<lparr>cycle_num = 2, area = 2, capacitance = 100, is_outlier = False,
                outlier_reason = None, warning = None\<rparr>)"
proof -
  let ?a = "triangle_run\<lparr>metadata := (metadata triangle_run)\<lparr>scan_rate := None\<rparr>\<rparr>"
  have h: "scan_rate (metadata ?a) = None" by simp
  have l: "2 \<le> length loop_cycle" by (simp add: loop_cycle_def)
  have o: "\<not> has_overflow ?a loop_cycle"
    using loop_cycle_no_overflow by (simp add: has_overflow_def overflow_threshold_def)
  have d: "list_max (map fst (fst (split_forward_reverse loop_cycle)))
             \<noteq> list_min (map fst (fst (split_forward_reverse loop_cycle)))"
    by (simp add: loop_cycle_split list_max_def list_min_def)
  from missing_scan_rate_default[OF h, of 2 loop_cycle] l o d
  have "calculate_cycle_capacitance ?a 2 loop_cycle =
     Inr (Some \<lparr>cycle_num = 2,
                area = calculate_area (fst (split_forward_reverse loop_cycle)) (snd (split_forward_reverse loop_cycle)),
                capacitance =
                  calculate_area (fst (split_forward_reverse loop_cycle)) (snd (split_forward_reverse loop_cycle))
                    / (2 * (1 / 100) * (list_max (map fst (fst (split_forward_reverse loop_cycle)))
                                     - list_min (map fst (fst (split_forward_reverse loop_cycle))))),
                is_outlier = False, outlier_reason = None, warning = None\<rparr>)"
    by blast
  then show ?thesis
    by (simp add: loop_cycle_split loop_cycle_area list_max_def list_min_def)
qed

text \<open>
  Claim C4 fails on the code: a cycle whose first sample has the highest voltage has a
  forward scan of that one sample, hence a voltage range of zero, and with a scan rate
  that is not zero the division of line 357 is reached with a zero divisor. The two
  falling samples of \<open>descending_cycle\<close> show it.
\<close>

theorem zero_range_division_unguarded:
  "\<not> has_overflow triangle_run descending_cycle
     \<and> scan_rate (metadata triangle_run) = Some 1
     \<and> fst (split_forward_reverse descending_cycle) = [(2, 1)]
     \<and> calculate_cycle_capacitance triangle_run 1 descending_cycle = Inl ZeroDivisionError"
proof -
  have o: "\<not> has_overflow triangle_run descending_cycle"
    by (simp add: has_overflow_def overflow_threshold_def triangle_fields descending_cycle_def)
  have s: "split_forward_reverse descending_cycle = ([(2, 1)], descending_cycle)"
    by (simp add: split_forward_reverse_def descending_cycle_def)
  have l: "\<not> length descending_cycle < 2" "descending_cycle \<noteq> []" by (simp_all add: descending_cycle_def)
  have "calculate_cycle_capacitance triangle_run 1 descending_cycle = Inl ZeroDivisionError"
    unfolding calculate_cycle_capacitance_def s using o l
    by (simp add: triangle_fields list_max_def list_min_def)
  with o s show ?thesis by (simp add: triangle_fields)
qed

section \<open>Aggregation: proofs\<close>

lemma calculate_cycle_capacitance_cong:
  assumes "metadata a = metadata b"
    and "sensitivity_threshold_factor a = sensitivity_threshold_factor b"
  shows "calculate_cycle_capacitance a num cyc = calculate_cycle_capacitance b num cyc"
  using assms
  by (simp add: calculate_cycle_capacitance_def has_overflow_def overflow_threshold_def Let_def
      split: prod.splits cong: if_cong)

lemma single_overflow_fields:
  "voltage_current_data single_overflow_run = overflow_pair"
  "is_cv single_overflow_run"
  "segment (metadata single_overflow_run) = None"
  "sensitivity (metadata single_overflow_run) = None"
  "outlier_count single_overflow_run = 1"
  "sensitivity_threshold_factor single_overflow_run = 10"
  by (simp_all add: single_overflow_run_def default_analyzer_def init_analyzer_def empty_metadata_def)

lemma single_overflow_split: "split_into_cycles single_overflow_run = [overflow_pair]"
proof -
  have dirs: "direction_changes overflow_pair = [0, 1]"
    by (simp add: overflow_pair_def direction_changes_def)
  have idx: "direction_change_indices [0, 1] = [0]"
    by (simp add: direction_change_indices_def upt_rec)
  have bnd: "cycle_boundaries 10 overflow_pair = [0, 2]"
    by (simp add: cycle_boundaries_def dirs idx) (simp add: overflow_pair_def)
  have raw: "raw_cycles single_overflow_run = [overflow_pair]"
    by (simp add: raw_cycles_def single_overflow_fields bnd slice_def) (simp add: overflow_pair_def)
  show ?thesis
    by (simp add: split_into_cycles_def raw single_overflow_fields) (simp add: overflow_pair_def)
qed

lemma single_overflow_result:
  "calculate_cycle_capacitance single_overflow_run 1 overflow_pair =
     Inr (Some \<lparr>cycle_num = 1, area = 0, capacitance = 0, is_outlier = True,
                outlier_reason = Some CurrentOverflow, warning = Some (OverflowIgnored 10)\<rparr>)"
proof -
  have ov: "has_overflow single_overflow_run overflow_pair"
    by (simp add: has_overflow_def overflow_threshold_def single_overflow_fields overflow_pair_def)
  have len: "length overflow_pair = 2" by (simp add: overflow_pair_def)
  show ?thesis by (simp add: calculate_cycle_capacitance_def ov len single_overflow_fields)
qed

subsection \<open>Claims about \<open>analyze\<close>\<close>

text \<open>
  Claim C1 fails on the code: \<open>analyze\<close> appends the capacitance 0 of an overflow result to
  \<open>capacitances\<close>, so the list is not empty when every cycle overflows. For the file of
  two samples of 100 A the only cycle is an overflow, and \<open>analyze\<close> succeeds with an
  average capacitance of 0.
\<close>

theorem all_overflow_run_succeeds_with_zero:
  "list_all (has_overflow single_overflow_run) (split_into_cycles single_overflow_run)
     \<and> analyze single_overflow_run =
         Inr \<lparr>rep_results = [\<lparr>cycle_num = 1, area = 0, capacitance = 0, is_outlier = True,
                  outlier_reason = Some CurrentOverflow, warning = Some (OverflowIgnored 10)\<rparr>],
              rep_capacitances = [0], rep_average = 0, rep_dispersion = None\<rparr>"
proof -
  have ov: "has_overflow single_overflow_run overflow_pair"
    by (simp add: has_overflow_def overflow_threshold_def single_overflow_fields overflow_pair_def)
  have ne: "voltage_current_data single_overflow_run \<noteq> []"
    by (simp add: single_overflow_fields overflow_pair_def)
  have "analyze single_overflow_run =
         Inr \<lparr>rep_results = [\<lparr>cycle_num = 1, area = 0, capacitance = 0, is_outlier = True,
                  outlier_reason = Some CurrentOverflow, warning = Some (OverflowIgnored 10)\<rparr>],
              rep_capacitances = [0], rep_average = 0, rep_dispersion = None\<rparr>"
    using ne
    by (simp add: analyze_def single_overflow_fields single_overflow_split single_overflow_result
        analyze_capacitances_def calculate_robust_average_def statistics_mean_def)
  with ov show ?thesis by (simp add: single_overflow_split)
qed

lemma mixed_fields:
  "segment (metadata overflow_then_valid) = Some 4"
  "scan_rate (metadata overflow_then_valid) = Some 1"
  "sensitivity (metadata overflow_then_valid) = Some 1"
  "sensitivity_threshold_factor overflow_then_valid = 10"
  "outlier_count overflow_then_valid = 1"
  "is_cv overflow_then_valid"
  "voltage_current_data overflow_then_valid =
     [(0, 100), (1, 1), (2, 1), (1, - 1), (0, - 1), (1, 2), (2, 2), (1, - 2), (0, - 2)]"
  by (simp_all add: overflow_then_valid_def triangle_fields)

lemma mixed_split:
  "split_into_cycles overflow_then_valid =
     [[(0, 100), (1, 1), (2, 1), (1, - 1), (0, - 1)], loop_cycle]"
proof -
  have dirs: "direction_changes (voltage_current_data overflow_then_valid) = [0, 1, 1, - 1, - 1, 1, 1, - 1, - 1]"
    by (simp add: mixed_fields direction_changes_def)
  have idx: "direction_change_indices [0, 1, 1, - 1, - 1, 1, 1, - 1, - 1] = [0, 3, 5, 7]"
    by (simp add: direction_change_indices_def upt_rec numeral_nat)
  have bnd: "cycle_boundaries 4 (voltage_current_data overflow_then_valid) = [0, 3, 5, 7, 9]"
    unfolding cycle_boundaries_def dirs idx by (simp add: mixed_fields)
  have raw: "raw_cycles overflow_then_valid =
     [[(0, 100), (1, 1), (2, 1)], [(1, - 1), (0, - 1)], [(1, 2), (2, 2)], [(1, - 2), (0, - 2)]]"
    unfolding raw_cycles_def mixed_fields(1) using bnd
    by (simp add: mixed_fields slice_def)
  show ?thesis
    unfolding split_into_cycles_def raw by (simp add: mixed_fields loop_cycle_def)
qed

lemma mixed_results:
  "collect_results overflow_then_valid 1 (split_into_cycles overflow_then_valid) =
     Inr [\<lparr>cycle_num = 1, area = 0, capacitance = 0, is_outlier = True,
            outlier_reason = Some CurrentOverflow, warning = Some (OverflowIgnored 10)\<rparr>,
          \<lparr>cycle_num = 2, area = 2, capacitance = 1, is_outlier = False,
            outlier_reason = None, warning = None\<rparr>]"
proof -
  have ov: "has_overflow overflow_then_valid [(0, 100), (1, 1), (2, 1), (1, - 1), (0, - 1)]"
    by (simp add: has_overflow_def overflow_threshold_def mixed_fields)
  have r1: "calculate_cycle_capacitance overflow_then_valid 1 [(0, 100), (1, 1), (2, 1), (1, - 1), (0, - 1)] =
     Inr (Some \<lparr>cycle_num = 1, area = 0, capacitance = 0, is_outlier = True,
            outlier_reason = Some CurrentOverflow, warning = Some (OverflowIgnored 10)\<rparr>)"
    using ov by (simp add: calculate_cycle_capacitance_def mixed_fields)
  have same: "calculate_cycle_capacitance overflow_then_valid 2 loop_cycle =
      calculate_cycle_capacitance triangle_run 2 loop_cycle"
    by (rule calculate_cycle_capacitance_cong) (simp_all add: overflow_then_valid_def)
  show ?thesis
    by (simp add: mixed_split r1 same loop_cycle_result)
qed

text \<open>
  Claim C2 fails on \<open>analyze\<close>: for the triangular run with an overflow in its first cycle,
  the valid capacitances are \<open>[1]\<close>, but the list \<open>analyze\<close> averages and takes the
  minimum of is \<open>[0, 1]\<close>, the outlier's zero included.
\<close>

theorem outlier_zero_reaches_aggregator:
  "(\<exists>rs rep. collect_results overflow_then_valid 1 (split_into_cycles overflow_then_valid) = Inr rs
       \<and> map is_outlier rs = [True, False]
       \<and> get_valid_capacitances rs = [1]
       \<and> analyze_capacitances rs = [0, 1]
       \<and> analyze overflow_then_valid = Inr rep
       \<and> rep_capacitances rep = [0, 1]
       \<and> map_option fst (rep_dispersion rep) = Some 0)"
proof -
  let ?rs = "[\<lparr>cycle_num = 1, area = 0, capacitance = 0, is_outlier = True,
            outlier_reason = Some CurrentOverflow, warning = Some (OverflowIgnored 10)\<rparr>,
          \<lparr>cycle_num = 2, area = 2, capacitance = 1, is_outlier = False,
            outlier_reason = None, warning = None\<rparr>]"
  have caps: "analyze_capacitances ?rs = [0, 1]" by (simp add: analyze_capacitances_def)
  have valid: "get_valid_capacitances ?rs = [1]" by (simp add: get_valid_capacitances_def)
  have mean: "statistics_mean [0, 1] = Inr (1 / 2)" by (simp add: statistics_mean_def)
  have sd: "statistics_stdev [0, 1] = Inr (sqrt (1 / 2))"
    by (simp add: statistics_stdev_def power2_eq_square)
  have avg: "calculate_robust_average overflow_then_valid [0, 1] = Inr 1"
    by (simp add: calculate_robust_average_def mixed_fields mean sd sort_descending_def
        slice_from_def statistics_mean_def)
  have ne: "voltage_current_data overflow_then_valid \<noteq> []" by (simp add: mixed_fields)
  have sp: "split_into_cycles overflow_then_valid \<noteq> []" by (simp add: mixed_split)
  have an: "analyze overflow_then_valid =
      Inr \<lparr>rep_results = ?rs, rep_capacitances = [0, 1], rep_average = 1,
           rep_dispersion = Some (list_min [0, 1], list_max [0, 1], sqrt (1 / 2), sqrt (1 / 2) / 1 * 100)\<rparr>"
    using ne sp
    by (simp add: analyze_def Let_def mixed_results caps avg sd mixed_fields)
  show ?thesis
    unfolding mixed_results an using caps valid by (simp add: list_min_def)
qed

section \<open>Forward/reverse split and loop area: proofs\<close>

lemma max_scan_spec:
  "(\<forall>x \<in> set xs. fst x \<le> snd (max_scan i (mi, mv) xs))
   \<and> mv \<le> snd (max_scan i (mi, mv) xs)
   \<and> ((max_scan i (mi, mv) xs = (mi, mv))
       \<or> (i \<le> fst (max_scan i (mi, mv) xs)
           \<and> fst (max_scan i (mi, mv) xs) < i + length xs
           \<and> fst (xs ! (fst (max_scan i (mi, mv) xs) - i)) = snd (max_scan i (mi, mv) xs)
           \<and> mv < snd (max_scan i (mi, mv) xs)
           \<and> (\<forall>j < fst (max_scan i (mi, mv) xs) - i. fst (xs ! j) < snd (max_scan i (mi, mv) xs))))"
proof (induction xs arbitrary: i mi mv)
  case Nil
  then show ?case by simp
next
  case (Cons x xs)
  obtain v c where x: "x = (v, c)" by (cases x)
  show ?case
  proof (cases "v > mv")
    case True
    let ?r = "max_scan (Suc i) (i, v) xs"
    have r: "max_scan i (mi, mv) (x # xs) = ?r" using True x by simp
    note ih = Cons.IH[of "Suc i" i v]
    from ih have le: "\<forall>y \<in> set xs. fst y \<le> snd ?r" and ge: "v \<le> snd ?r" by blast+
    from ih consider (same) "?r = (i, v)"
      | (later) "Suc i \<le> fst ?r" "fst ?r < Suc i + length xs"
          "fst (xs ! (fst ?r - Suc i)) = snd ?r" "v < snd ?r"
          "\<forall>j < fst ?r - Suc i. fst (xs ! j) < snd ?r"
      by blast
    then have "i \<le> fst ?r \<and> fst ?r < i + length (x # xs)
           \<and> fst ((x # xs) ! (fst ?r - i)) = snd ?r \<and> mv < snd ?r
           \<and> (\<forall>j < fst ?r - i. fst ((x # xs) ! j) < snd ?r)"
    proof cases
      case same
      then show ?thesis using True x by simp
    next
      case later
      have "fst ?r - i = Suc (fst ?r - Suc i)" using later(1) by simp
      moreover have "\<forall>j < Suc (fst ?r - Suc i). fst ((x # xs) ! j) < snd ?r"
        using later(4,5) x by (auto simp: nth_Cons split: nat.splits)
      ultimately show ?thesis using later True by auto
    qed
    with le ge True x show ?thesis unfolding r by auto
  next
    case False
    let ?r = "max_scan (Suc i) (mi, mv) xs"
    have r: "max_scan i (mi, mv) (x # xs) = ?r" using False x by simp
    note ih = Cons.IH[of "Suc i" mi mv]
    from ih have le: "\<forall>y \<in> set xs. fst y \<le> snd ?r" and ge: "mv \<le> snd ?r" by blast+
    from ih consider (same) "?r = (mi, mv)"
      | (later) "Suc i \<le> fst ?r" "fst ?r < Suc i + length xs"
          "fst (xs ! (fst ?r - Suc i)) = snd ?r" "mv < snd ?r"
          "\<forall>j < fst ?r - Suc i. fst (xs ! j) < snd ?r"
      by blast
    then have "?r = (mi, mv) \<or> (i \<le> fst ?r \<and> fst ?r < i + length (x # xs)
           \<and> fst ((x # xs) ! (fst ?r - i)) = snd ?r \<and> mv < snd ?r
           \<and> (\<forall>j < fst ?r - i. fst ((x # xs) ! j) < snd ?r))"
    proof cases
      case same
      then show ?thesis by simp
    next
      case later
      have "fst ?r - i = Suc (fst ?r - Suc i)" using later(1) by simp
      moreover have "\<forall>j < Suc (fst ?r - Suc i). fst ((x # xs) ! j) < snd ?r"
        using later(4,5) x False by (auto simp: nth_Cons split: nat.splits)
      ultimately show ?thesis using later by auto
    qed
    with le ge False x show ?thesis unfolding r by auto
  qed
qed

lemma first_max_index:
  assumes "cyc \<noteq> []"
  defines "k \<equiv> fst (max_scan 0 (0, fst (hd cyc)) cyc)"
  shows "k < length cyc" and "\<forall>j < length cyc. fst (cyc ! j) \<le> fst (cyc ! k)"
    and "\<forall>j < k. fst (cyc ! j) < fst (cyc ! k)"
proof -
  let ?r = "max_scan 0 (0, fst (hd cyc)) cyc"
  note s = max_scan_spec[of cyc 0 0 "fst (hd cyc)"]
  from s have le: "\<forall>x \<in> set cyc. fst x \<le> snd ?r" by blast
  from s consider (same) "?r = (0, fst (hd cyc))"
    | (later) "fst ?r < length cyc" "fst (cyc ! fst ?r) = snd ?r"
        "\<forall>j < fst ?r. fst (cyc ! j) < snd ?r"
    by auto
  then have "k < length cyc \<and> (\<forall>j < length cyc. fst (cyc ! j) \<le> fst (cyc ! k))
      \<and> (\<forall>j < k. fst (cyc ! j) < fst (cyc ! k))"
  proof cases
    case same
    then have "k = 0" "snd ?r = fst (cyc ! 0)" using assms(1) by (simp_all add: k_def hd_conv_nth)
    with le assms(1) show ?thesis by auto
  next
    case later
    with le show ?thesis unfolding k_def by auto
  qed
  then show "k < length cyc" and "\<forall>j < length cyc. fst (cyc ! j) \<le> fst (cyc ! k)"
    and "\<forall>j < k. fst (cyc ! j) < fst (cyc ! k)" by blast+
qed

lemma fold_update_map_of:
  "fold (\<lambda>(v, i) m. m(round6 v \<mapsto> i)) rv m0 = m0 ++ map_of (rev (map (\<lambda>(v, i). (round6 v, i)) rv))"
proof (induction rv arbitrary: m0)
  case Nil
  then show ?case by simp
next
  case (Cons x rv)
  obtain v i where x: "x = (v, i)" by (cases x)
  let ?f = "\<lambda>(v, i) m. m(round6 v \<mapsto> i)"
  let ?g = "\<lambda>(v, i). (round6 v, i)"
  have "fold ?f (x # rv) m0 = fold ?f rv (m0(round6 v \<mapsto> i))"
    by (simp only: x fold_simps prod.case)
  also have "\<dots> = m0(round6 v \<mapsto> i) ++ map_of (rev (map ?g rv))"
    by (rule Cons.IH)
  also have "m0(round6 v \<mapsto> i) = m0 ++ map_of [(round6 v, i)]"
    by simp
  also have "(m0 ++ map_of [(round6 v, i)]) ++ map_of (rev (map ?g rv))
      = m0 ++ map_of (rev (map ?g (x # rv)))"
    by (simp only: x list.map rev.simps prod.case map_of_append map_add_assoc)
  finally show ?case .
qed

lemma reverse_dict_spec: "reverse_dict rv = spec_lookup rv"
  by (simp add: reverse_dict_def spec_lookup_def fold_update_map_of)

lemma area_loop_sum:
  "area_loop d fwd acc = acc + sum_list (map (spec_pair_area d) (zip fwd (tl fwd)))"
proof (induction d fwd acc rule: area_loop.induct)
  case (1 d v1 i1 v2 i2 rest acc)
  then show ?case
    by (auto simp: spec_pair_area_def dom_def split: option.splits)
qed (simp_all)

lemma calculate_area_spec: "calculate_area fwd rv = spec_area fwd rv"
  by (simp add: calculate_area_def spec_area_def area_loop_sum reverse_dict_spec)

lemma spec_lookup_dom: "dom (spec_lookup rv) = (\<lambda>(v, i). round6 v) ` set rv"
  by (force simp: spec_lookup_def dom_map_of_conv_image_fst image_iff)


subsection \<open>Rounding to 6 decimal places\<close>

lemma round6_cases:
  obtains r :: int where "round6 v = of_int r / 1000000"
    and "\<bar>of_int r - v * 1000000\<bar> \<le> 1 / 2"
    and "\<bar>of_int r - v * 1000000\<bar> = 1 / 2 \<Longrightarrow> even r"
proof -
  define y where "y = v * 1000000"
  define f where "f = \<lfloor>y\<rfloor>"
  define d where "d = y - of_int f"
  define r where "r = (if d < 1 / 2 then f else if d > 1 / 2 then f + 1
                 else if even f then f else f + 1)"
  have d: "0 \<le> d" "d < 1" unfolding d_def f_def by linarith+
  have y: "y = of_int f + d" unfolding d_def by simp
  have a: "round6 v = of_int r / 1000000"
    by (simp add: round6_def Let_def r_def d_def f_def y_def)
  have b: "\<bar>of_int r - y\<bar> \<le> 1 / 2"
    unfolding r_def y using d by auto
  have c: "\<bar>of_int r - y\<bar> = 1 / 2 \<Longrightarrow> even r"
    unfolding r_def y using d by (auto split: if_splits)
  from a b c show ?thesis using that unfolding y_def by blast
qed

lemma scaled_abs: "\<bar>a / 1000000 - v\<bar> = \<bar>a - v * 1000000\<bar> / (1000000 :: real)"
proof -
  have e: "a / 1000000 - v = (a - v * 1000000) / 1000000" by (simp add: field_simps)
  show ?thesis unfolding e abs_divide by simp
qed

lemma round6_multiple: "\<exists>n :: int. round6 v = of_int n / 1000000"
  by (rule round6_cases[of v]) blast

lemma round6_close: "\<bar>round6 v - v\<bar> \<le> 1 / 2000000"
proof (rule round6_cases[of v])
  fix r :: int
  assume a: "round6 v = of_int r / 1000000" and b: "\<bar>of_int r - v * 1000000\<bar> \<le> 1 / 2"
  have "\<bar>round6 v - v\<bar> = \<bar>of_int r - v * 1000000\<bar> / 1000000"
    unfolding a by (rule scaled_abs)
  with b show ?thesis by simp
qed

lemma round6_unique:
  assumes "\<bar>of_int n / 1000000 - v\<bar> < 1 / 2000000"
  shows "round6 v = of_int n / 1000000"
proof (rule round6_cases[of v])
  fix r :: int
  assume a: "round6 v = of_int r / 1000000" and b: "\<bar>of_int r - v * 1000000\<bar> \<le> 1 / 2"
  have "\<bar>of_int n / 1000000 - v\<bar> = \<bar>of_int n - v * 1000000\<bar> / 1000000"
    by (rule scaled_abs)
  with assms have n: "\<bar>of_int n - v * 1000000\<bar> < 1 / 2" by simp
  from n b have "\<bar>(of_int n :: real) - of_int r\<bar> < 1" by linarith
  then have "\<bar>of_int (n - r) :: real\<bar> < 1" by simp
  then have "\<bar>n - r\<bar> < 1" by linarith
  then have "n = r" by simp
  with a show ?thesis by simp
qed

lemma round6_tie_even:
  assumes "\<bar>of_int n / 1000000 - v\<bar> = 1 / 2000000" and "even n"
  shows "round6 v = of_int n / 1000000"
proof (rule round6_cases[of v])
  fix r :: int
  assume a: "round6 v = of_int r / 1000000" and b: "\<bar>of_int r - v * 1000000\<bar> \<le> 1 / 2"
    and c: "\<bar>of_int r - v * 1000000\<bar> = 1 / 2 \<Longrightarrow> even r"
  have "\<bar>of_int n / 1000000 - v\<bar> = \<bar>of_int n - v * 1000000\<bar> / 1000000"
    by (rule scaled_abs)
  with assms(1) have n: "\<bar>of_int n - v * 1000000\<bar> = 1 / 2" by simp
  have "n = r"
  proof (cases "\<bar>of_int r - v * 1000000\<bar> = 1 / 2")
    case True
    then have "even r" by (rule c)
    from n True have "\<bar>(of_int n :: real) - of_int r\<bar> \<le> 1" by linarith
    then have "\<bar>of_int (n - r) :: real\<bar> \<le> 1" by simp
    then have "\<bar>n - r\<bar> \<le> 1" by linarith
    moreover have "even (n - r)" using assms(2) \<open>even r\<close> by simp
    ultimately show ?thesis by presburger
  next
    case False
    with b have "\<bar>of_int r - v * 1000000\<bar> < 1 / 2" by linarith
    with n have "\<bar>(of_int n :: real) - of_int r\<bar> < 1" by linarith
    then have "\<bar>of_int (n - r) :: real\<bar> < 1" by simp
    then have "\<bar>n - r\<bar> < 1" by linarith
    then show ?thesis by simp
  qed
  with a show ?thesis by simp
qed

lemma round6_examples:
  "round6 (1000001 / 10000000) = 1 / 10" "round6 (100001 / 1000000) = 100001 / 1000000"
  "round6 (1 / 5) = 1 / 5" "round6 (1 / 10) = 1 / 10"
  using round6_unique[of 100000 "1000001 / 10000000"] round6_unique[of 100001 "100001 / 1000000"]
    round6_unique[of 200000 "1 / 5"] round6_unique[of 100000 "1 / 10"]
  by simp_all

lemma near_match_split:
  "split_forward_reverse near_match_cycle =
     ([(1000001 / 10000000, 2), (1 / 5, 2)], [(1 / 5, 2), (1 / 10, - 2)])"
  by (simp add: split_forward_reverse_def near_match_cycle_def)

lemma no_match_split:
  "split_forward_reverse no_match_cycle =
     ([(100001 / 1000000, 2), (1 / 5, 2)], [(1 / 5, 2), (1 / 10, - 2)])"
  by (simp add: split_forward_reverse_def no_match_cycle_def)

lemma near_match_area:
  "calculate_area [(1000001 / 10000000, 2), (1 / 5, 2)] [(1 / 5, 2), (1 / 10, - 2)] = 999999 / 5000000"
  by (simp add: calculate_area_def reverse_dict_def round6_examples)

lemma no_match_area:
  "calculate_area [(100001 / 1000000, 2), (1 / 5, 2)] [(1 / 5, 2), (1 / 10, - 2)] = 0"
  by (simp add: calculate_area_def reverse_dict_def round6_examples)

subsection \<open>Claim about the split and the loop area\<close>

text \<open>
  Claim C6. For every cycle the split point is an index \<open>k\<close> whose voltage is the
  maximum of the cycle and strictly above every earlier voltage (the first sample
  attaining the maximum); the forward scan runs up to and including \<open>k\<close>, the reverse
  scan starts at \<open>k\<close>, so sample \<open>k\<close> ends the one and starts the other. The dictionary
  of line 410 is the lookup of the specification, its keys are the rounded reverse
  voltages, and the area computed by the loop is the absolute value of the sum of the
  trapezoids of the forward pairs with both rounded voltages among the keys. Rounding to
  6 decimal places gives a multiple of \<open>10\<^sup>-\<^sup>6\<close> at most \<open>5 * 10\<^sup>-\<^sup>7\<close> away: the one
  multiple strictly nearer than that where there is one, the even multiple on a tie. So
  a voltage is a key of the lookup exactly when some reverse voltage rounds to the same
  multiple.
\<close>

theorem forward_reverse_split_and_loop_area:
  assumes "2 \<le> length cyc"
  shows "(\<exists>k < length cyc.
            (\<forall>j < length cyc. fst (cyc ! j) \<le> fst (cyc ! k))
          \<and> (\<forall>j < k. fst (cyc ! j) < fst (cyc ! k))
          \<and> split_forward_reverse cyc = (take (Suc k) cyc, drop k cyc)
          \<and> last (take (Suc k) cyc) = cyc ! k
          \<and> hd (drop k cyc) = cyc ! k)
     \<and> reverse_dict rv = spec_lookup rv
     \<and> dom (spec_lookup rv) = (\<lambda>(v, i). round6 v) ` set rv
     \<and> calculate_area fwd rv = spec_area fwd rv
     \<and> (\<exists>n :: int. round6 v = of_int n / 1000000)
     \<and> \<bar>round6 v - v\<bar> \<le> 1 / 2000000
     \<and> (\<forall>n :: int. \<bar>of_int n / 1000000 - v\<bar> < 1 / 2000000 \<longrightarrow> round6 v = of_int n / 1000000)
     \<and> (\<forall>n :: int. \<bar>of_int n / 1000000 - v\<bar> = 1 / 2000000 \<and> even n
            \<longrightarrow> round6 v = of_int n / 1000000)
     \<and> (round6 v \<in> dom (spec_lookup rv) \<longleftrightarrow> (\<exists>(w, i) \<in> set rv. round6 w = round6 v))"
proof -
  from assms have ne: "cyc \<noteq> []" by auto
  define k where "k = fst (max_scan 0 (0, fst (hd cyc)) cyc)"
  note m = first_max_index[OF ne, folded k_def]
  have sp: "split_forward_reverse cyc = (take (Suc k) cyc, drop k cyc)"
    using assms by (simp add: split_forward_reverse_def k_def Let_def)
  have la: "last (take (Suc k) cyc) = cyc ! k"
    using m(1) by (simp add: take_Suc_conv_app_nth)
  have hd: "hd (drop k cyc) = cyc ! k"
    using m(1) by (simp add: hd_drop_conv_nth)
  from m sp la hd have split: "\<exists>k < length cyc.
            (\<forall>j < length cyc. fst (cyc ! j) \<le> fst (cyc ! k))
          \<and> (\<forall>j < k. fst (cyc ! j) < fst (cyc ! k))
          \<and> split_forward_reverse cyc = (take (Suc k) cyc, drop k cyc)
          \<and> last (take (Suc k) cyc) = cyc ! k
          \<and> hd (drop k cyc) = cyc ! k"
    by blast
  have u: "\<forall>n :: int. \<bar>of_int n / 1000000 - v\<bar> < 1 / 2000000 \<longrightarrow> round6 v = of_int n / 1000000"
    using round6_unique by blast
  have e: "\<forall>n :: int. \<bar>of_int n / 1000000 - v\<bar> = 1 / 2000000 \<and> even n
            \<longrightarrow> round6 v = of_int n / 1000000"
    using round6_tie_even by blast
  have key: "round6 v \<in> dom (spec_lookup rv) \<longleftrightarrow> (\<exists>(w, i) \<in> set rv. round6 w = round6 v)"
    unfolding spec_lookup_dom by force
  from split u e key show ?thesis
    using reverse_dict_spec[of rv] spec_lookup_dom[of rv] calculate_area_spec[of fwd rv]
      round6_multiple[of v] round6_close[of v]
    by blast
qed

text \<open>
  The theorem at the cycle whose forward voltage 0.1000001 rounds to the reverse voltage
  0.1, so that the pair counts with the reverse current at 0.1 (area 0.1999998), and at
  the forward scan starting at 0.100001, which matches no reverse voltage (area 0).
\<close>

theorem forward_reverse_split_and_loop_area_witness:
  "(\<exists>k < length near_match_cycle.
        split_forward_reverse near_match_cycle
          = (take (Suc k) near_match_cycle, drop k near_match_cycle)
      \<and> near_match_cycle ! k = (1 / 5, 2))
     \<and> round6 (1000001 / 10000000) = 1 / 10
     \<and> round6 (1000001 / 10000000) \<in> dom (spec_lookup [(1 / 5, 2), (1 / 10, - 2)])
     \<and> round6 (100001 / 1000000) \<notin> dom (spec_lookup [(1 / 5, 2), (1 / 10, - 2)])
     \<and> spec_area [(1000001 / 10000000, 2), (1 / 5, 2)] [(1 / 5, 2), (1 / 10, - 2)] = 999999 / 5000000
     \<and> spec_area [(100001 / 1000000, 2), (1 / 5, 2)] [(1 / 5, 2), (1 / 10, - 2)] = 0"
proof -
  have l: "2 \<le> length near_match_cycle" by (simp add: near_match_cycle_def)
  note t1 = forward_reverse_split_and_loop_area[OF l, where rv = "[(1 / 5, 2), (1 / 10, - 2)]"
      and fwd = "[(1000001 / 10000000, 2), (1 / 5, 2)]" and v = "1000001 / 10000000"]
  note t2 = forward_reverse_split_and_loop_area[OF l, where rv = "[(1 / 5, 2), (1 / 10, - 2)]"
      and fwd = "[(100001 / 1000000, 2), (1 / 5, 2)]" and v = "100001 / 1000000"]
  from t1 obtain k where k: "k < length near_match_cycle"
    "split_forward_reverse near_match_cycle = (take (Suc k) near_match_cycle, drop k near_match_cycle)"
    "hd (drop k near_match_cycle) = near_match_cycle ! k"
    by blast
  from k(2) have "drop k near_match_cycle = [(1 / 5, 2), (1 / 10, - 2)]"
    by (simp add: near_match_split)
  with k(3) have a: "near_match_cycle ! k = (1 / 5, 2)" by simp
  from t1 have "\<forall>n :: int. \<bar>real_of_int n / 1000000 - 1000001 / 10000000\<bar> < 1 / 2000000
      \<longrightarrow> round6 (1000001 / 10000000) = real_of_int n / 1000000"
    by blast
  from this[rule_format, of 100000] have b: "round6 (1000001 / 10000000) = 1 / 10" by simp
  from t1 have c: "round6 (1000001 / 10000000) \<in> dom (spec_lookup [(1 / 5, 2), (1 / 10, - 2)])"
    by (simp add: round6_examples)
  from t2 have d: "round6 (100001 / 1000000) \<notin> dom (spec_lookup [(1 / 5, 2), (1 / 10, - 2)])"
    by (simp add: round6_examples)
  from t1 have e: "spec_area [(1000001 / 10000000, 2), (1 / 5, 2)] [(1 / 5, 2), (1 / 10, - 2)]
      = 999999 / 5000000"
    using near_match_area by simp
  from t2 have f: "spec_area [(100001 / 1000000, 2), (1 / 5, 2)] [(1 / 5, 2), (1 / 10, - 2)] = 0"
    using no_match_area by simp
  from k(1,2) a b c d e f show ?thesis by blast
qed

section \<open>Robust average: proofs\<close>

lemma statistics_mean_eq: "xs \<noteq> [] \<Longrightarrow> statistics_mean xs = Inr (arithmetic_mean xs)"
  by (simp add: statistics_mean_def arithmetic_mean_def)

lemma statistics_stdev_eq: "2 \<le> length xs \<Longrightarrow> statistics_stdev xs = Inr (sample_stdev xs)"
  by (simp add: statistics_stdev_def sample_stdev_def arithmetic_mean_def Let_def)

lemma sort_descending_mset: "mset (sort_descending zs) = mset zs"
  by (simp add: sort_descending_def)

lemma sort_descending_length: "length (sort_descending zs) = length zs"
  by (simp add: sort_descending_def)

lemma sort_descending_nth:
  assumes "i \<le> j" and "j < length (sort_descending zs)"
  shows "fst (sort_descending zs ! j) \<le> fst (sort_descending zs ! i)"
proof -
  let ?s = "sort_descending zs"
  have "sorted (map (\<lambda>x. - fst x) ?s)" unfolding sort_descending_def by (rule sorted_sort_key)
  then have "map (\<lambda>x. - fst x) ?s ! i \<le> map (\<lambda>x. - fst x) ?s ! j"
    using assms by (simp add: sorted_iff_nth_mono)
  then show ?thesis using assms by simp
qed

lemma sort_descending_stable:
  "filter (\<lambda>p. fst p = z) (sort_descending zs) = filter (\<lambda>p. fst p = z) zs"
proof -
  have "filter (\<lambda>p. - fst p = - z) (sort_key (\<lambda>x. - fst x) zs) = filter (\<lambda>p. - fst p = - z) zs"
    by (rule sort_key_stable)
  then show ?thesis by (simp add: sort_descending_def)
qed

lemma sort_descending_take_drop:
  assumes "a \<in> set (take k (sort_descending zs))" and "b \<in> set (drop k (sort_descending zs))"
  shows "fst b \<le> fst a"
proof -
  let ?s = "sort_descending zs"
  from assms(1) obtain i where i: "i < k" "i < length ?s" "?s ! i = a"
    by (auto simp: in_set_conv_nth)
  from assms(2) obtain j where j0: "j < length (drop k ?s)" "drop k ?s ! j = b"
    by (auto simp: in_set_conv_nth)
  then have j: "k + j < length ?s" "?s ! (k + j) = b" by auto
  have "fst (?s ! (k + j)) \<le> fst (?s ! i)"
    using i(1) j(1) by (intro sort_descending_nth) auto
  with i j show ?thesis by simp
qed

text \<open>
  Claim C9. For a list of values that is not empty and an outlier count \<open>k\<close> that is not
  negative: the robust average is the arithmetic mean when the list holds at most \<open>k\<close>
  values, and when the sample standard deviation is zero; otherwise it is the arithmetic
  mean of what is left of the z-scored list, sorted, after its first \<open>k\<close> entries. The
  sorted list is a permutation of the z-scored one, its z-scores descend, entries of
  equal z-score keep their original order, and so no entry removed has a smaller z-score
  than an entry kept.
\<close>

theorem robust_average:
  assumes "vals \<noteq> []" and "0 \<le> outlier_count self"
  defines "k \<equiv> nat (outlier_count self)"
    and "zs \<equiv> map (\<lambda>v. (z_score vals v, v)) vals"
  shows "(length vals \<le> k \<longrightarrow> calculate_robust_average self vals = Inr (arithmetic_mean vals))
     \<and> (k < length vals \<and> sample_stdev vals = 0
          \<longrightarrow> calculate_robust_average self vals = Inr (arithmetic_mean vals))
     \<and> (k < length vals \<and> sample_stdev vals \<noteq> 0
          \<longrightarrow> calculate_robust_average self vals =
              Inr (arithmetic_mean (map snd (drop k (sort_descending zs)))))
     \<and> mset (sort_descending zs) = mset zs
     \<and> (\<forall>i j. i \<le> j \<and> j < length zs
          \<longrightarrow> fst (sort_descending zs ! j) \<le> fst (sort_descending zs ! i))
     \<and> (\<forall>z. filter (\<lambda>p. fst p = z) (sort_descending zs) = filter (\<lambda>p. fst p = z) zs)
     \<and> (\<forall>a \<in> set (take k (sort_descending zs)). \<forall>b \<in> set (drop k (sort_descending zs)).
           fst b \<le> fst a)"
proof -
  have ik: "int (length vals) \<le> outlier_count self \<longleftrightarrow> length vals \<le> k"
    using assms(2) by (auto simp: k_def)
  have c1: "length vals \<le> k \<longrightarrow> calculate_robust_average self vals = Inr (arithmetic_mean vals)"
    using assms(1) by (simp add: calculate_robust_average_def ik statistics_mean_eq)
  have c2: "k < length vals \<and> sample_stdev vals = 0
          \<longrightarrow> calculate_robust_average self vals = Inr (arithmetic_mean vals)"
  proof (rule impI, elim conjE)
    assume a: "k < length vals" "sample_stdev vals = 0"
    show "calculate_robust_average self vals = Inr (arithmetic_mean vals)"
    proof (cases "length vals > 1")
      case True
      then have "statistics_stdev vals = Inr 0" using a(2) statistics_stdev_eq[of vals] by simp
      then show ?thesis
        using a(1) True assms(1) by (simp add: calculate_robust_average_def ik statistics_mean_eq)
    next
      case False
      then show ?thesis
        using a(1) assms(1) by (simp add: calculate_robust_average_def ik statistics_mean_eq)
    qed
  qed
  have c3: "k < length vals \<and> sample_stdev vals \<noteq> 0
          \<longrightarrow> calculate_robust_average self vals =
              Inr (arithmetic_mean (map snd (drop k (sort_descending zs))))"
  proof (rule impI, elim conjE)
    assume a: "k < length vals" "sample_stdev vals \<noteq> 0"
    then have l: "length vals > 1" by (auto simp: sample_stdev_def split: if_splits)
    then have sd: "statistics_stdev vals = Inr (sample_stdev vals)"
      using statistics_stdev_eq[of vals] by simp
    have z: "map (\<lambda>v. (\<bar>v - arithmetic_mean vals\<bar> / sample_stdev vals, v)) vals = zs"
      by (simp add: zs_def z_score_def)
    have sl: "slice_from (sort_descending zs) (outlier_count self) = drop k (sort_descending zs)"
      using assms(2) by (simp add: slice_from_def k_def)
    have ne: "map snd (drop k (sort_descending zs)) \<noteq> []"
      using a(1) by (simp add: sort_descending_length zs_def)
    show "calculate_robust_average self vals =
              Inr (arithmetic_mean (map snd (drop k (sort_descending zs))))"
      using a l assms(1) ne
      by (simp add: calculate_robust_average_def ik statistics_mean_eq sd z sl Let_def)
  qed
  have c5: "\<forall>i j. i \<le> j \<and> j < length zs
          \<longrightarrow> fst (sort_descending zs ! j) \<le> fst (sort_descending zs ! i)"
    using sort_descending_nth[of _ _ zs] by (simp add: sort_descending_length)
  have c7: "\<forall>a \<in> set (take k (sort_descending zs)). \<forall>b \<in> set (drop k (sort_descending zs)).
           fst b \<le> fst a"
    using sort_descending_take_drop by blast
  from c1 c2 c3 c5 c7 sort_descending_mset[of zs] sort_descending_stable[of _ zs]
  show ?thesis by blast
qed

text \<open>The example \<open>[1, 1, 1, 10]\<close>: mean 13/4, standard deviation 9/2, the value 10 sorted first.\<close>

lemma spec_example_mean: "arithmetic_mean spec_example = 13 / 4"
  by (simp add: arithmetic_mean_def spec_example_def)

lemma spec_example_stdev: "sample_stdev spec_example = 9 / 2"
proof -
  have "sqrt (81 / 4) = 9 / 2" by (rule real_sqrt_unique) (simp_all add: power2_eq_square)
  then show ?thesis
    by (simp add: sample_stdev_def spec_example_mean) (simp add: spec_example_def power2_eq_square)
qed

lemma spec_example_sorted:
  "sort_descending (map (\<lambda>v. (z_score spec_example v, v)) spec_example)
     = [(3 / 2, 10), (1 / 2, 1), (1 / 2, 1), (1 / 2, 1)]"
  by (simp add: z_score_def spec_example_mean spec_example_stdev sort_descending_def)
     (simp add: spec_example_def)

text \<open>The theorem at the example: with one outlier removed the robust average is 1.\<close>

theorem robust_average_witness:
  "calculate_robust_average default_analyzer spec_example = Inr 1"
proof -
  have h: "spec_example \<noteq> []" "0 \<le> outlier_count default_analyzer"
    by (simp_all add: spec_example_def default_analyzer_def init_analyzer_def)
  have k: "nat (outlier_count default_analyzer) = 1"
    by (simp add: default_analyzer_def init_analyzer_def)
  have c: "1 < length spec_example \<and> sample_stdev spec_example \<noteq> 0"
    by (simp add: spec_example_stdev) (simp add: spec_example_def)
  from robust_average[OF h] c
  have "calculate_robust_average default_analyzer spec_example =
      Inr (arithmetic_mean (map snd (drop 1
         (sort_descending (map (\<lambda>v. (z_score spec_example v, v)) spec_example)))))"
    unfolding k by blast
  then show ?thesis by (simp add: spec_example_sorted arithmetic_mean_def)
qed

section \<open>Parsing: proofs\<close>























lemma lines_after_header_Some:
  "lines_after_header ls = Some rest \<Longrightarrow>
     \<exists>pre l. ls = pre @ l # rest \<and> contains data_header l \<and> \<not> list_ex (contains data_header) pre"
proof (induction ls)
  case Nil
  then show ?case by simp
next
  case (Cons l ls)
  show ?case
  proof (cases "contains data_header l")
    case True
    with Cons.prems have "rest = ls" by simp
    with True show ?thesis by (intro exI[of _ "[]"] exI[of _ l]) simp
  next
    case False
    with Cons obtain pre l' where "ls = pre @ l' # rest" "contains data_header l'"
      "\<not> list_ex (contains data_header) pre" by auto
    with False show ?thesis by (intro exI[of _ "l # pre"] exI[of _ l']) simp
  qed
qed







end
